theory Spec2Isabelle
  imports Main "HOL-Library.Word"
begin

section \<open>The thread-safe queue of queue.go\<close>

text \<open>
  The Go package has one type, \<^verbatim>\<open>ThreadSafeQueue\<close>, with a slice of
  \<^verbatim>\<open>interface{}\<close> items, a \<^verbatim>\<open>sync.Mutex\<close> and a \<^verbatim>\<open>sync.Cond\<close> on that
  mutex. Its methods are run by goroutines that interleave between statements.
  The model is a transition system: the shared struct, and for every goroutine
  the statement of queue.go it is about to execute together with its locals.
  One transition executes one statement of one goroutine.
\<close>

subsection \<open>Values and the struct\<close>

text \<open>
  The queue never inspects an item, so the item type is a type variable.
  \<open>go_value\<close> gives some of the dynamic types an \<^verbatim>\<open>interface{}\<close> can hold,
  for concrete runs: the nil interface, int, string, bool and float64 (as its
  IEEE 754 bit pattern).
\<close>

datatype go_value =
    GoNil
  | GoInt int
  | GoString string
  | GoBool bool
  | GoFloat64 "64 word"

text \<open>
  \<open>queue\<close> is the slice (a nil slice is the empty list), \<open>mu\<close> is the mutex
  (\<open>True\<close> when locked; the zero value is unlocked), \<open>cond\<close> is the notify list
  of the condition variable: the goroutines parked in \<^verbatim>\<open>Wait\<close>, the longest
  waiting first.
\<close>

record 'a ThreadSafeQueue =
  queue :: "'a list"
  mu :: bool
  cond :: "nat list"

text \<open>
  \<^verbatim>\<open>NewThreadSafeQueue\<close> (lines 19 to 23) allocates the zero value of the struct,
  a nil slice and an unlocked mutex, and a new condition variable on the mutex,
  with nobody waiting. It has no error result.
\<close>

definition NewThreadSafeQueue :: "'a ThreadSafeQueue" where
  "NewThreadSafeQueue = \<lparr>queue = [], mu = False, cond = []\<rparr>"

subsection \<open>Goroutines\<close>

text \<open>What a call returns to its caller.\<close>

datatype 'a ret =
    RetEnqueue
  | RetDequeue 'a bool
  | RetIsEmpty bool
  | RetSize int

text \<open>
  The statement a goroutine is at, by the line of queue.go:
  \<^item> \<open>Enq_Lock item\<close> line 29, \<open>Enq_Append item\<close> line 30, \<open>Enq_Signal\<close> line 31,
    \<open>Enq_Unlock\<close> line 32;
  \<^item> \<open>Deq_Lock\<close> line 41, \<open>Deq_Loop\<close> the loop condition of line 43,
    \<open>Deq_Wait\<close> the call of line 44, \<open>Deq_Parked\<close> suspended inside \<^verbatim>\<open>Wait\<close>,
    \<open>Deq_Relock\<close> woken inside \<^verbatim>\<open>Wait\<close> and locking the mutex again,
    \<open>Deq_Item\<close> line 46, \<open>Deq_Slice item\<close> line 47, \<open>Deq_Return item\<close> line 48
    with the deferred unlock of line 42;
  \<^item> \<open>Emp_Lock\<close> line 54, \<open>Emp_Eval\<close> line 56, \<open>Emp_Unlock b\<close> the deferred unlock
    of line 55 with the result already evaluated;
  \<^item> \<open>Siz_Lock\<close> line 62, \<open>Siz_Eval\<close> line 64, \<open>Siz_Unlock n\<close> the deferred unlock
    of line 63.
  \<open>Idle\<close> is a goroutine that has not called the queue, \<open>Returned r\<close> one whose
  call has returned \<open>r\<close>.
\<close>

datatype 'a frame =
    Idle
  | Enq_Lock 'a
  | Enq_Append 'a
  | Enq_Signal
  | Enq_Unlock
  | Deq_Lock
  | Deq_Loop
  | Deq_Wait
  | Deq_Parked
  | Deq_Relock
  | Deq_Item
  | Deq_Slice 'a
  | Deq_Return 'a
  | Emp_Lock
  | Emp_Eval
  | Emp_Unlock bool
  | Siz_Lock
  | Siz_Eval
  | Siz_Unlock int
  | Returned "'a ret"

record 'a system =
  obj :: "'a ThreadSafeQueue"
  gs :: "nat \<Rightarrow> 'a frame"

text \<open>
  One statement either moves on to the next state, or blocks (the mutex is
  held by another goroutine, or the goroutine is parked), or crashes the
  program (unlocking an unlocked mutex is a fatal error, indexing or slicing
  an empty slice a panic), or there is nothing to execute.
\<close>

datatype 'a outcome =
    Next "'a system"
  | Blocked
  | Crash
  | Halted

subsection \<open>The sync primitives\<close>

text \<open>\<^verbatim>\<open>Mutex.Lock\<close>: \<open>None\<close> when the caller has to wait for the mutex.\<close>

definition Lock :: "'a ThreadSafeQueue \<Rightarrow> 'a ThreadSafeQueue option" where
  "Lock q = (if mu q then None else Some (q\<lparr>mu := True\<rparr>))"

text \<open>\<^verbatim>\<open>Mutex.Unlock\<close>: \<open>None\<close> is the fatal error on an unlocked mutex.\<close>

definition Unlock :: "'a ThreadSafeQueue \<Rightarrow> 'a ThreadSafeQueue option" where
  "Unlock q = (if mu q then Some (q\<lparr>mu := False\<rparr>) else None)"

text \<open>
  \<^verbatim>\<open>Cond.Signal\<close> wakes one goroutine waiting on the condition, if there is
  any: it takes the first goroutine off the notify list and returns it.
\<close>

definition Signal :: "'a ThreadSafeQueue \<Rightarrow> 'a ThreadSafeQueue \<times> nat option" where
  "Signal q = (case cond q of [] \<Rightarrow> (q, None) | w # ws \<Rightarrow> (q\<lparr>cond := ws\<rparr>, Some w))"

text \<open>
  The first half of \<^verbatim>\<open>Cond.Wait\<close>: goroutine \<open>g\<close> joins the notify list and
  unlocks the mutex, atomically; it is then suspended. The second half, after
  a wake-up, is \<open>Lock\<close>.
\<close>

definition Wait :: "'a ThreadSafeQueue \<Rightarrow> nat \<Rightarrow> 'a ThreadSafeQueue option" where
  "Wait q g = Unlock (q\<lparr>cond := cond q @ [g]\<rparr>)"

subsection \<open>One statement of one goroutine\<close>

text \<open>
  \<open>step s g\<close> executes the statement goroutine \<open>g\<close> is at. \<open>goto s g f q\<close> is
  the state where the struct has become \<open>q\<close> and \<open>g\<close> is at \<open>f\<close>. A deferred
  \<^verbatim>\<open>Unlock\<close> runs when the function returns, after the result is evaluated.
  \<^verbatim>\<open>Signal\<close> moves the goroutine it wakes from \<open>Deq_Parked\<close> to \<open>Deq_Relock\<close>.
  \<^verbatim>\<open>len\<close> is a Go \<^verbatim>\<open>int\<close>, which the length of a slice always fits.
\<close>

definition goto :: "'a system \<Rightarrow> nat \<Rightarrow> 'a frame \<Rightarrow> 'a ThreadSafeQueue \<Rightarrow> 'a outcome" where
  "goto s g f q = Next \<lparr>obj = q, gs = (gs s)(g := f)\<rparr>"

definition step :: "'a system \<Rightarrow> nat \<Rightarrow> 'a outcome" where
  "step s g =
    (let q = obj s in
     case gs s g of
       Idle \<Rightarrow> Halted
     | Returned r \<Rightarrow> Halted
     \<comment> \<open>Enqueue\<close>
     | Enq_Lock item \<Rightarrow>
        (case Lock q of None \<Rightarrow> Blocked | Some q' \<Rightarrow> goto s g (Enq_Append item) q')
     | Enq_Append item \<Rightarrow> goto s g Enq_Signal (q\<lparr>queue := queue q @ [item]\<rparr>)
     | Enq_Signal \<Rightarrow>
        (case Signal q of
           (q', None) \<Rightarrow> goto s g Enq_Unlock q'
         | (q', Some w) \<Rightarrow> Next \<lparr>obj = q', gs = (gs s)(w := Deq_Relock, g := Enq_Unlock)\<rparr>)
     | Enq_Unlock \<Rightarrow>
        (case Unlock q of None \<Rightarrow> Crash | Some q' \<Rightarrow> goto s g (Returned RetEnqueue) q')
     \<comment> \<open>Dequeue\<close>
     | Deq_Lock \<Rightarrow> (case Lock q of None \<Rightarrow> Blocked | Some q' \<Rightarrow> goto s g Deq_Loop q')
     | Deq_Loop \<Rightarrow> goto s g (if length (queue q) = 0 then Deq_Wait else Deq_Item) q
     | Deq_Wait \<Rightarrow> (case Wait q g of None \<Rightarrow> Crash | Some q' \<Rightarrow> goto s g Deq_Parked q')
     | Deq_Parked \<Rightarrow> Blocked
     | Deq_Relock \<Rightarrow> (case Lock q of None \<Rightarrow> Blocked | Some q' \<Rightarrow> goto s g Deq_Loop q')
     | Deq_Item \<Rightarrow> (case queue q of [] \<Rightarrow> Crash | item # _ \<Rightarrow> goto s g (Deq_Slice item) q)
     | Deq_Slice item \<Rightarrow>
        (case queue q of [] \<Rightarrow> Crash | _ # rest \<Rightarrow> goto s g (Deq_Return item) (q\<lparr>queue := rest\<rparr>))
     | Deq_Return item \<Rightarrow>
        (case Unlock q of None \<Rightarrow> Crash
         | Some q' \<Rightarrow> goto s g (Returned (RetDequeue item True)) q')
     \<comment> \<open>IsEmpty\<close>
     | Emp_Lock \<Rightarrow> (case Lock q of None \<Rightarrow> Blocked | Some q' \<Rightarrow> goto s g Emp_Eval q')
     | Emp_Eval \<Rightarrow> goto s g (Emp_Unlock (length (queue q) = 0)) q
     | Emp_Unlock b \<Rightarrow>
        (case Unlock q of None \<Rightarrow> Crash | Some q' \<Rightarrow> goto s g (Returned (RetIsEmpty b)) q')
     \<comment> \<open>Size\<close>
     | Siz_Lock \<Rightarrow> (case Lock q of None \<Rightarrow> Blocked | Some q' \<Rightarrow> goto s g Siz_Eval q')
     | Siz_Eval \<Rightarrow> goto s g (Siz_Unlock (int (length (queue q)))) q
     | Siz_Unlock n \<Rightarrow>
        (case Unlock q of None \<Rightarrow> Crash | Some q' \<Rightarrow> goto s g (Returned (RetSize n)) q'))"

subsection \<open>Calls\<close>

datatype 'a op =
    OpEnqueue 'a
  | OpDequeue
  | OpIsEmpty
  | OpSize

fun entry :: "'a op \<Rightarrow> 'a frame" where
  "entry (OpEnqueue item) = Enq_Lock item"
| "entry OpDequeue = Deq_Lock"
| "entry OpIsEmpty = Emp_Lock"
| "entry OpSize = Siz_Lock"

definition call :: "'a system \<Rightarrow> nat \<Rightarrow> 'a op \<Rightarrow> 'a system" where
  "call s g op = s\<lparr>gs := (gs s)(g := entry op)\<rparr>"

text \<open>
  A goroutine running alone, statement after statement, until its call returns
  or it blocks. Blocked with nobody else running, it stays blocked: the call
  does not return.
\<close>

datatype 'a result =
    Returns "'a ret" "'a system"
  | Blocks "'a system"
  | Crashes
  | NoCall

text \<open>
  Every statement a goroutine executes itself takes it to a frame of smaller
  rank (from \<open>Deq_Parked\<close> only another goroutine's \<^verbatim>\<open>Signal\<close> leads on), so a
  goroutine running alone returns or blocks after finitely many statements.
\<close>

fun rank :: "'a frame \<Rightarrow> nat" where
  "rank Idle = 0"
| "rank (Returned r) = 0"
| "rank (Enq_Lock item) = 4"
| "rank (Enq_Append item) = 3"
| "rank Enq_Signal = 2"
| "rank Enq_Unlock = 1"
| "rank Deq_Lock = 7"
| "rank Deq_Relock = 6"
| "rank Deq_Loop = 5"
| "rank Deq_Wait = 4"
| "rank Deq_Parked = 0"
| "rank Deq_Item = 3"
| "rank (Deq_Slice item) = 2"
| "rank (Deq_Return item) = 1"
| "rank Emp_Lock = 3"
| "rank Emp_Eval = 2"
| "rank (Emp_Unlock b) = 1"
| "rank Siz_Lock = 3"
| "rank Siz_Eval = 2"
| "rank (Siz_Unlock n) = 1"

function run :: "'a system \<Rightarrow> nat \<Rightarrow> 'a result" where
  "run s g =
    (case step s g of
       Next s' \<Rightarrow> run s' g
     | Blocked \<Rightarrow> Blocks s
     | Crash \<Rightarrow> Crashes
     | Halted \<Rightarrow> (case gs s g of Returned r \<Rightarrow> Returns r s | _ \<Rightarrow> NoCall))"
  by pat_completeness auto
termination
  by (relation "measure (\<lambda>(s, g). rank (gs s g))")
     (auto simp: step_def goto_def Lock_def Unlock_def Wait_def Signal_def Let_def
           split: frame.splits option.splits list.splits prod.splits if_splits)

definition invoke :: "'a system \<Rightarrow> nat \<Rightarrow> 'a op \<Rightarrow> 'a result" where
  "invoke s g op = run (call s g op) g"

text \<open>
  The four methods, called by goroutine \<open>g\<close> in state \<open>s\<close> and run with no
  other goroutine taking a step meanwhile.
\<close>

definition Enqueue :: "'a system \<Rightarrow> nat \<Rightarrow> 'a \<Rightarrow> 'a result" where
  "Enqueue s g item = invoke s g (OpEnqueue item)"

definition Dequeue :: "'a system \<Rightarrow> nat \<Rightarrow> 'a result" where
  "Dequeue s g = invoke s g OpDequeue"

definition IsEmpty :: "'a system \<Rightarrow> nat \<Rightarrow> 'a result" where
  "IsEmpty s g = invoke s g OpIsEmpty"

definition Size :: "'a system \<Rightarrow> nat \<Rightarrow> 'a result" where
  "Size s g = invoke s g OpSize"

text \<open>The program right after \<^verbatim>\<open>NewThreadSafeQueue()\<close>: no goroutine has called yet.\<close>

definition init :: "'a system" where
  "init = \<lparr>obj = NewThreadSafeQueue, gs = (\<lambda>_. Idle)\<rparr>"

text \<open>
  A sequence of calls, each made by some goroutine and completed before the
  next one starts. \<open>None\<close> when one of them does not return.
\<close>

fun exec :: "'a system \<Rightarrow> (nat \<times> 'a op) list \<Rightarrow> ('a ret list \<times> 'a system) option" where
  "exec s [] = Some ([], s)"
| "exec s ((g, op) # ops) =
    (case invoke s g op of
       Returns r s' \<Rightarrow>
         (case exec s' ops of None \<Rightarrow> None | Some (rs, s'') \<Rightarrow> Some (r # rs, s''))
     | _ \<Rightarrow> None)"





text \<open>Calls of \<^verbatim>\<open>Enqueue\<close> with given items, and calls of \<^verbatim>\<open>Dequeue\<close>.\<close>

definition enqueue_calls :: "(nat \<times> 'a) list \<Rightarrow> (nat \<times> 'a op) list" where
  "enqueue_calls gvs = map (\<lambda>(g, item). (g, OpEnqueue item)) gvs"

definition dequeue_calls :: "nat list \<Rightarrow> (nat \<times> 'a op) list" where
  "dequeue_calls hs = map (\<lambda>h. (h, OpDequeue)) hs"

subsection \<open>Interleaved executions\<close>

fun idle :: "'a frame \<Rightarrow> bool" where
  "idle Idle = True"
| "idle (Returned r) = True"
| "idle _ = False"

text \<open>
  The states of a program that creates the queue and whose goroutines call its
  methods, in any interleaving: a goroutine that is in no call may start one,
  and any goroutine may execute its next statement.
\<close>

inductive reachable :: "'a system \<Rightarrow> bool" where
  reachable_init: "reachable init"
| reachable_call: "reachable s \<Longrightarrow> idle (gs s g) \<Longrightarrow> reachable (call s g op)"
| reachable_step: "reachable s \<Longrightarrow> step s g = Next s' \<Longrightarrow> reachable s'"

text \<open>The frames between a successful \<^verbatim>\<open>Lock\<close> and the matching \<^verbatim>\<open>Unlock\<close>.\<close>

fun locked :: "'a frame \<Rightarrow> bool" where
  "locked (Enq_Append item) = True"
| "locked Enq_Signal = True"
| "locked Enq_Unlock = True"
| "locked Deq_Loop = True"
| "locked Deq_Wait = True"
| "locked Deq_Item = True"
| "locked (Deq_Slice item) = True"
| "locked (Deq_Return item) = True"
| "locked Emp_Eval = True"
| "locked (Emp_Unlock b) = True"
| "locked Siz_Eval = True"
| "locked (Siz_Unlock n) = True"
| "locked _ = False"

text \<open>
  The goroutines a transition from \<open>s\<close> to \<open>s'\<close> wakes: those on the notify
  list of \<open>s\<close> that are no longer parked in \<open>s'\<close>.
\<close>

definition woken :: "'a system \<Rightarrow> 'a system \<Rightarrow> nat list" where
  "woken s s' = filter (\<lambda>w. gs s' w \<noteq> Deq_Parked) (cond (obj s))"

text \<open>
  An interleaving is a list of events: goroutine \<open>h\<close> executes its next
  statement, or starts a call. \<open>wakes_by g s es\<close> counts the goroutines that the
  statements of \<open>g\<close>'s current call wake along \<open>es\<close>, up to the return of that
  call.
\<close>

datatype 'a event =
    Step nat
  | Invoke nat "'a op"

fun wakes_by :: "nat \<Rightarrow> 'a system \<Rightarrow> 'a event list \<Rightarrow> nat" where
  "wakes_by g s [] = 0"
| "wakes_by g s (Step h # es) =
    (if idle (gs s g) then 0
     else case step s h of
       Next s' \<Rightarrow> (if h = g then length (woken s s') else 0) + wakes_by g s' es
     | _ \<Rightarrow> wakes_by g s es)"
| "wakes_by g s (Invoke h op # es) =
    (if idle (gs s g) then 0
     else if idle (gs s h) then wakes_by g (call s h op) es
     else wakes_by g s es)"

text \<open>The state an interleaving leads to; events that cannot happen are skipped.\<close>

fun play :: "'a system \<Rightarrow> 'a event list \<Rightarrow> 'a system" where
  "play s [] = s"
| "play s (Step h # es) = (case step s h of Next s' \<Rightarrow> play s' es | _ \<Rightarrow> play s es)"
| "play s (Invoke h op # es) = (if idle (gs s h) then play (call s h op) es else play s es)"

text \<open>The frames of \<^verbatim>\<open>Enqueue\<close>, and how many calls of \<^verbatim>\<open>Signal\<close> lie ahead of each.\<close>

fun enq_frame :: "'a frame \<Rightarrow> bool" where
  "enq_frame (Enq_Lock item) = True"
| "enq_frame (Enq_Append item) = True"
| "enq_frame Enq_Signal = True"
| "enq_frame Enq_Unlock = True"
| "enq_frame _ = False"

fun signals_due :: "'a frame \<Rightarrow> nat" where
  "signals_due (Enq_Lock item) = 1"
| "signals_due (Enq_Append item) = 1"
| "signals_due Enq_Signal = 1"
| "signals_due _ = 0"

text \<open>The frames of \<^verbatim>\<open>Dequeue\<close>, and those of \<^verbatim>\<open>IsEmpty\<close> and \<^verbatim>\<open>Size\<close>.\<close>

fun deq_frame :: "'a frame \<Rightarrow> bool" where
  "deq_frame Deq_Lock = True"
| "deq_frame Deq_Loop = True"
| "deq_frame Deq_Wait = True"
| "deq_frame Deq_Parked = True"
| "deq_frame Deq_Relock = True"
| "deq_frame Deq_Item = True"
| "deq_frame (Deq_Slice item) = True"
| "deq_frame (Deq_Return item) = True"
| "deq_frame _ = False"

fun observer_frame :: "'a frame \<Rightarrow> bool" where
  "observer_frame Emp_Lock = True"
| "observer_frame Emp_Eval = True"
| "observer_frame (Emp_Unlock b) = True"
| "observer_frame Siz_Lock = True"
| "observer_frame Siz_Eval = True"
| "observer_frame (Siz_Unlock n) = True"
| "observer_frame _ = False"

subsection \<open>Concrete runs\<close>

text \<open>
  The items of a concrete run: an int, a string, a float64 (3.14) and a bool,
  each with the goroutine that inserts it.
\<close>

definition heterogeneous :: "(nat \<times> go_value) list" where
  "heterogeneous =
     [(0, GoInt 42), (0, GoString ''hello''), (1, GoFloat64 0x40091EB851EB851F),
      (0, GoBool True)]"

text \<open>A queue that holds two items, with no call in progress.\<close>

definition holding_two :: "go_value system" where
  "holding_two =
     \<lparr>obj = \<lparr>queue = [GoInt 42, GoString ''hello''], mu = False, cond = []\<rparr>,
      gs = (\<lambda>_. Idle)\<rparr>"


text \<open>
  Goroutine 1 has inserted 42 and returned; goroutine 0 is in \<^verbatim>\<open>Dequeue\<close>, at its
  return statement.
\<close>

definition served :: "go_value system" where
  "served =
     play init
       [Invoke 1 (OpEnqueue (GoInt 42)), Step 1, Step 1, Step 1, Step 1,
        Invoke 0 OpDequeue, Step 0, Step 0, Step 0, Step 0]"

text \<open>
  Goroutine 0 calls \<^verbatim>\<open>Dequeue\<close> on the new queue: \<open>at_loop_empty\<close> when it holds
  the mutex and is at the loop condition; \<open>parked_signal\<close> when it is parked and
  goroutine 1, inserting 42, is about to signal; \<open>woken_free\<close> when goroutine 1
  has signalled and unlocked; \<open>at_removal\<close> when goroutine 0 has locked again
  and left the loop. In \<open>two_parked\<close> goroutines 1 and 2 are both parked in
  \<^verbatim>\<open>Dequeue\<close>.
\<close>

definition at_loop_empty :: "go_value system" where
  "at_loop_empty = play init [Invoke 0 OpDequeue, Step 0]"

definition parked_signal :: "go_value system" where
  "parked_signal =
     play init
       [Invoke 0 OpDequeue, Step 0, Step 0, Step 0,
        Invoke 1 (OpEnqueue (GoInt 42)), Step 1, Step 1]"

definition woken_free :: "go_value system" where
  "woken_free = play parked_signal [Step 1, Step 1]"

definition at_removal :: "go_value system" where
  "at_removal = play woken_free [Step 0, Step 0]"

definition two_parked :: "go_value system" where
  "two_parked =
     play init
       [Invoke 1 OpDequeue, Step 1, Step 1, Step 1,
        Invoke 2 OpDequeue, Step 2, Step 2, Step 2]"

text \<open>
  In \<open>appending\<close> the queue holds 42 and goroutine 0, inserting the nil interface,
  is at line 30. In \<open>slicing\<close> the queue holds 42 and a string and goroutine 0, in
  \<^verbatim>\<open>Dequeue\<close>, is at line 47.
\<close>

definition appending :: "go_value system" where
  "appending =
     play init
       [Invoke 1 (OpEnqueue (GoInt 42)), Step 1, Step 1, Step 1, Step 1,
        Invoke 0 (OpEnqueue GoNil), Step 0]"

definition slicing :: "go_value system" where
  "slicing =
     play init
       [Invoke 1 (OpEnqueue (GoInt 42)), Step 1, Step 1, Step 1, Step 1,
        Invoke 1 (OpEnqueue (GoString ''hello'')), Step 1, Step 1, Step 1, Step 1,
        Invoke 0 OpDequeue, Step 0, Step 0, Step 0]"

subsection \<open>Invariants\<close>

text \<open>
  Mutual exclusion: at most one goroutine is between \<^verbatim>\<open>Lock\<close> and \<^verbatim>\<open>Unlock\<close>,
  and the mutex is locked exactly when there is one.
\<close>

definition mutex_inv :: "'a system \<Rightarrow> bool" where
  "mutex_inv s \<longleftrightarrow>
     (\<forall>g h. locked (gs s g) \<and> locked (gs s h) \<longrightarrow> g = h) \<and>
     (mu (obj s) \<longleftrightarrow> (\<exists>g. locked (gs s g)))"

text \<open>The notify list holds the parked goroutines, each once.\<close>

definition parked_inv :: "'a system \<Rightarrow> bool" where
  "parked_inv s \<longleftrightarrow>
     distinct (cond (obj s)) \<and>
     (\<forall>w. w \<in> set (cond (obj s)) \<longrightarrow> gs s w = Deq_Parked) \<and>
     (\<forall>w. gs s w = Deq_Parked \<longrightarrow> w \<in> set (cond (obj s)))"

text \<open>
  A goroutine past the loop of \<^verbatim>\<open>Dequeue\<close> finds an element: at line 46 the
  slice is not empty, at line 47 its first element is the item read.
\<close>

definition head_inv :: "'a system \<Rightarrow> bool" where
  "head_inv s \<longleftrightarrow>
     (\<forall>g. gs s g = Deq_Item \<longrightarrow> queue (obj s) \<noteq> []) \<and>
     (\<forall>g x. gs s g = Deq_Slice x \<longrightarrow> (\<exists>xs. queue (obj s) = x # xs))"

section \<open>A call running alone\<close>

declare run.simps [simp del]

lemmas prims = step_def goto_def Lock_def Unlock_def Wait_def Signal_def Let_def call_def

lemma run_Enqueue:
  assumes "\<not> mu (obj s)"
  shows "run (call s g (OpEnqueue v)) g =
    Returns RetEnqueue
      \<lparr>obj = (obj s)\<lparr>queue := queue (obj s) @ [v], cond := tl (cond (obj s))\<rparr>,
       gs = (case cond (obj s) of [] \<Rightarrow> (gs s)(g := Returned RetEnqueue)
             | w # ws \<Rightarrow> (gs s)(w := Deq_Relock, g := Returned RetEnqueue))\<rparr>"
  using assms by (simp add: run.simps prims split: list.splits)

lemma run_Dequeue_Cons:
  assumes "\<not> mu (obj s)" "queue (obj s) = x # xs"
  shows "run (call s g OpDequeue) g =
    Returns (RetDequeue x True)
      \<lparr>obj = (obj s)\<lparr>queue := xs\<rparr>, gs = (gs s)(g := Returned (RetDequeue x True))\<rparr>"
  using assms by (simp add: run.simps prims)


lemma run_IsEmpty:
  assumes "\<not> mu (obj s)"
  shows "run (call s g OpIsEmpty) g =
    Returns (RetIsEmpty (queue (obj s) = []))
      \<lparr>obj = obj s, gs = (gs s)(g := Returned (RetIsEmpty (queue (obj s) = [])))\<rparr>"
  using assms by (simp add: run.simps prims)

lemma run_Size:
  assumes "\<not> mu (obj s)"
  shows "run (call s g OpSize) g =
    Returns (RetSize (int (length (queue (obj s)))))
      \<lparr>obj = obj s, gs = (gs s)(g := Returned (RetSize (int (length (queue (obj s))))))\<rparr>"
  using assms by (simp add: run.simps prims)

lemma run_locked:
  assumes "mu (obj s)"
  shows "run (call s g op) g = Blocks (call s g op)"
  using assms by (cases op) (simp_all add: run.simps prims)

lemma init_unlocked: "\<not> mu (obj init)" "queue (obj init) = []"
  by (simp_all add: init_def NewThreadSafeQueue_def)

subsection \<open>Sequences of calls\<close>

lemma invoke_Enqueue:
  assumes "\<not> mu (obj s)"
  shows "\<exists>s'. invoke s g (OpEnqueue v) = Returns RetEnqueue s' \<and>
              queue (obj s') = queue (obj s) @ [v] \<and> \<not> mu (obj s')"
  using assms by (simp add: invoke_def run_Enqueue)

lemma invoke_Dequeue_Cons:
  assumes "\<not> mu (obj s)" "queue (obj s) = x # xs"
  shows "\<exists>s'. invoke s g OpDequeue = Returns (RetDequeue x True) s' \<and>
              queue (obj s') = xs \<and> \<not> mu (obj s') \<and> cond (obj s') = cond (obj s)"
  using assms by (simp add: invoke_def run_Dequeue_Cons)


lemma invoke_IsEmpty:
  assumes "\<not> mu (obj s)"
  shows "\<exists>s'. invoke s g OpIsEmpty = Returns (RetIsEmpty (queue (obj s) = [])) s' \<and>
              obj s' = obj s"
  using assms by (simp add: invoke_def run_IsEmpty)

lemma invoke_Size:
  assumes "\<not> mu (obj s)"
  shows "\<exists>s'. invoke s g OpSize = Returns (RetSize (int (length (queue (obj s))))) s' \<and>
              obj s' = obj s"
  using assms by (simp add: invoke_def run_Size)

lemma exec_enqueue_calls:
  assumes "\<not> mu (obj s)"
  shows "\<exists>s'. exec s (enqueue_calls gvs) = Some (map (\<lambda>_. RetEnqueue) gvs, s') \<and>
              queue (obj s') = queue (obj s) @ map snd gvs \<and> \<not> mu (obj s')"
  using assms
proof (induction gvs arbitrary: s)
  case Nil
  then show ?case by (simp add: enqueue_calls_def)
next
  case (Cons gv gvs)
  obtain g v where gv: "gv = (g, v)" by (cases gv)
  from invoke_Enqueue [OF Cons.prems, of g v] obtain s1 where
    s1: "invoke s g (OpEnqueue v) = Returns RetEnqueue s1"
      "queue (obj s1) = queue (obj s) @ [v]" "\<not> mu (obj s1)"
    by blast
  from Cons.IH [OF s1(3)] obtain s' where
    s': "exec s1 (enqueue_calls gvs) = Some (map (\<lambda>_. RetEnqueue) gvs, s')"
      "queue (obj s') = queue (obj s1) @ map snd gvs" "\<not> mu (obj s')"
    by blast
  have "exec s (enqueue_calls (gv # gvs)) = Some (map (\<lambda>_. RetEnqueue) (gv # gvs), s')"
    using s1(1) s'(1) by (simp add: enqueue_calls_def gv)
  with s1(2) s'(2,3) show ?case
    by (simp add: gv)
qed

lemma exec_dequeue_calls:
  assumes "\<not> mu (obj s)" "queue (obj s) = xs @ ys" "length hs = length xs"
  shows "\<exists>s'. exec s (dequeue_calls hs) = Some (map (\<lambda>x. RetDequeue x True) xs, s') \<and>
              queue (obj s') = ys \<and> \<not> mu (obj s')"
  using assms
proof (induction hs arbitrary: s xs)
  case Nil
  then show ?case by (simp add: dequeue_calls_def)
next
  case (Cons h hs)
  then obtain x xs' where xs: "xs = x # xs'"
    by (cases xs) auto
  with Cons.prems have q: "queue (obj s) = x # (xs' @ ys)" by simp
  from invoke_Dequeue_Cons [OF Cons.prems(1) q, of h] obtain s1 where
    s1: "invoke s h OpDequeue = Returns (RetDequeue x True) s1"
      "queue (obj s1) = xs' @ ys" "\<not> mu (obj s1)"
    by blast
  from Cons.prems xs have "length hs = length xs'" by simp
  from Cons.IH [OF s1(3) s1(2) this] obtain s' where
    s': "exec s1 (dequeue_calls hs) = Some (map (\<lambda>x. RetDequeue x True) xs', s')"
      "queue (obj s') = ys" "\<not> mu (obj s')"
    by blast
  have "exec s (dequeue_calls (h # hs)) = Some (map (\<lambda>x. RetDequeue x True) xs, s')"
    using s1(1) s'(1) by (simp add: dequeue_calls_def xs)
  with s'(2,3) show ?case by simp
qed



section \<open>Interleavings: the invariants of the reachable states\<close>

text \<open>What a statement of \<open>g\<close> does to the other goroutines and to the mutex.\<close>

lemma step_others:
  assumes "step s g = Next s'" "h \<noteq> g"
  shows "gs s' h = gs s h \<or> (gs s g = Enq_Signal \<and> cond (obj s) \<noteq> [] \<and> h = hd (cond (obj s)) \<and> gs s' h = Deq_Relock)"
  using assms
  by (cases "gs s g") (auto simp: prims split: option.splits list.splits if_splits)

lemma step_mutex:
  assumes "step s g = Next s'"
  shows "if locked (gs s g) then mu (obj s') = (mu (obj s) \<and> locked (gs s' g))
         else \<not> mu (obj s) \<and> mu (obj s') \<and> locked (gs s' g)"
  using assms
  by (cases "gs s g") (auto simp: prims split: option.splits list.splits if_splits)

lemma mutex_inv_init: "mutex_inv init"
  by (simp add: mutex_inv_def init_def NewThreadSafeQueue_def)

lemma mutex_inv_call:
  assumes "mutex_inv s" "idle (gs s g)"
  shows "mutex_inv (call s g op)"
proof -
  have a: "\<not> locked (gs s g)" "\<not> locked (entry op)"
    using assms(2) by (cases "gs s g"; simp) (cases op; simp)
  have "locked (gs (call s g op) h) = locked (gs s h)" for h
    using a by (simp add: call_def)
  moreover have "obj (call s g op) = obj s"
    by (simp add: call_def)
  ultimately show ?thesis
    using assms(1) by (simp add: mutex_inv_def)
qed

lemma mutex_inv_step:
  assumes "mutex_inv s" "step s g = Next s'"
  shows "mutex_inv s'"
proof -
  have others: "locked (gs s' h) \<Longrightarrow> h \<noteq> g \<Longrightarrow> locked (gs s h)" for h
    using step_others [OF assms(2), of h] by auto
  show ?thesis
  proof (cases "locked (gs s g)")
    case True
    then have only: "locked (gs s' h) \<Longrightarrow> h = g" for h
      using others [of h] assms(1) by (auto simp: mutex_inv_def)
    from True have "mu (obj s)"
      using assms(1) by (auto simp: mutex_inv_def)
    then have "mu (obj s') = locked (gs s' g)"
      using step_mutex [OF assms(2)] True by simp
    with only show ?thesis
      unfolding mutex_inv_def by blast
  next
    case False
    then have m: "\<not> mu (obj s)" "mu (obj s')" "locked (gs s' g)"
      using step_mutex [OF assms(2)] by simp_all
    then have "\<not> locked (gs s h)" for h
      using assms(1) by (simp add: mutex_inv_def)
    then have "locked (gs s' h) \<Longrightarrow> h = g" for h
      using others [of h] by blast
    with m show ?thesis
      unfolding mutex_inv_def by blast
  qed
qed

lemma locked_excludes:
  assumes "mutex_inv s" "locked (gs s g)" "h \<noteq> g"
  shows "step s h \<noteq> Next s'"
proof
  assume st: "step s h = Next s'"
  from assms have "\<not> locked (gs s h)" "mu (obj s)"
    by (auto simp: mutex_inv_def)
  with step_mutex [OF st] show False by simp
qed

lemma parked_inv_init: "parked_inv init"
  by (simp add: parked_inv_def init_def NewThreadSafeQueue_def)

lemma parked_inv_call:
  assumes "parked_inv s" "idle (gs s g)"
  shows "parked_inv (call s g op)"
proof -
  have "gs s g \<noteq> Deq_Parked" "entry op \<noteq> Deq_Parked"
    using assms(2) by (cases "gs s g"; simp) (cases op; simp)
  then show ?thesis
    using assms(1) by (auto simp: parked_inv_def call_def)
qed

lemma parked_inv_step:
  assumes "parked_inv s" "step s g = Next s'"
  shows "parked_inv s'"
  using assms unfolding parked_inv_def
  by (cases "gs s g") (auto simp: prims split: option.splits list.splits if_splits)

lemma step_head:
  assumes "step s g = Next s'"
  shows "(gs s' g = Deq_Item \<longrightarrow> queue (obj s') \<noteq> []) \<and>
         (gs s' g = Deq_Slice x \<longrightarrow> (\<exists>xs. queue (obj s') = x # xs))"
  using assms
  by (cases "gs s g") (auto simp: prims split: option.splits list.splits if_splits)

lemma head_inv_init: "head_inv init"
  by (simp add: head_inv_def init_def)

lemma head_inv_call:
  assumes "head_inv s" "idle (gs s g)"
  shows "head_inv (call s g op)"
  using assms by (cases op) (auto simp: head_inv_def call_def)

lemma head_inv_step:
  assumes "head_inv s" "mutex_inv s" "step s g = Next s'"
  shows "head_inv s'"
proof -
  have other: "gs s h = gs s' h" if "locked (gs s' h)" "h \<noteq> g" for h
    using step_others [OF assms(3) that(2)] that(1) by auto
  have "queue (obj s') \<noteq> []" if "gs s' h = Deq_Item" for h
  proof (cases "h = g")
    case True
    with that step_head [OF assms(3)] show ?thesis by simp
  next
    case False
    with that other [of h] have "gs s h = Deq_Item" by simp
    with False locked_excludes [OF assms(2), of h g s'] assms(3) show ?thesis by simp
  qed
  moreover have "\<exists>xs. queue (obj s') = x # xs" if "gs s' h = Deq_Slice x" for h x
  proof (cases "h = g")
    case True
    with that step_head [OF assms(3)] show ?thesis by simp
  next
    case False
    with that other [of h] have "gs s h = Deq_Slice x" by simp
    with False locked_excludes [OF assms(2), of h g s'] assms(3) show ?thesis by simp
  qed
  ultimately show ?thesis
    unfolding head_inv_def by blast
qed

lemma reachable_inv:
  assumes "reachable s"
  shows "mutex_inv s \<and> parked_inv s \<and> head_inv s"
  using assms
proof induction
  case reachable_init
  show ?case by (simp add: mutex_inv_init parked_inv_init head_inv_init)
next
  case (reachable_call s g op)
  then show ?case by (simp add: mutex_inv_call parked_inv_call head_inv_call)
next
  case (reachable_step s g s')
  then show ?case
    using mutex_inv_step parked_inv_step head_inv_step by blast
qed

lemma reachable_play: "reachable s \<Longrightarrow> reachable (play s es)"
proof (induction s es rule: play.induct)
  case (1 s)
  then show ?case by simp
next
  case (2 s h es)
  then show ?case
    by (cases "step s h") (auto intro: reachable_step)
next
  case (3 s h op es)
  then show ?case
    by (auto intro: reachable_call)
qed

lemma reachable_unlocked:
  assumes "reachable s" "\<And>h. \<not> locked (gs s h)"
  shows "\<not> mu (obj s)"
  using reachable_inv [OF assms(1)] assms(2) by (simp add: mutex_inv_def)

lemma reachable_no_crash:
  assumes "reachable s"
  shows "step s g \<noteq> Crash"
proof -
  from reachable_inv [OF assms] have m: "locked (gs s g) \<Longrightarrow> mu (obj s)"
    and h: "gs s g = Deq_Item \<Longrightarrow> queue (obj s) \<noteq> []"
      "\<And>x. gs s g = Deq_Slice x \<Longrightarrow> queue (obj s) \<noteq> []"
    by (auto simp: mutex_inv_def head_inv_def)
  show ?thesis
    using m h
    by (cases "gs s g") (auto simp: prims split: option.splits list.splits if_splits)
qed

lemma woken_step:
  assumes "parked_inv s" "step s g = Next s'"
  shows "length (woken s s') = (if gs s g = Enq_Signal \<and> cond (obj s) \<noteq> [] then 1 else 0)"
proof -
  from assms(2) have ng: "gs s g \<noteq> Deq_Parked"
    by (auto simp: prims)
  with assms(1) have g: "g \<notin> set (cond (obj s))"
    by (auto simp: parked_inv_def)
  show ?thesis
  proof (cases "gs s g = Enq_Signal \<and> cond (obj s) \<noteq> []")
    case True
    then obtain w ws where c: "cond (obj s) = w # ws"
      by (cases "cond (obj s)") auto
    with True assms(2) have s': "gs s' = (gs s)(w := Deq_Relock, g := Enq_Unlock)"
      by (auto simp: prims)
    from c assms(1) g have "w \<noteq> g" "w \<notin> set ws" "g \<notin> set ws" "\<forall>u\<in>set ws. gs s u = Deq_Parked"
      by (auto simp: parked_inv_def)
    then have "filter (\<lambda>u. gs s' u \<noteq> Deq_Parked) ws = []"
      unfolding s' by (auto simp: filter_empty_conv)
    with \<open>w \<noteq> g\<close> show ?thesis
      using True by (simp add: woken_def c s')
  next
    case False
    have "gs s' u = Deq_Parked" if "u \<in> set (cond (obj s))" for u
    proof -
      from that g have "u \<noteq> g" by auto
      from step_others [OF assms(2) this] False have "gs s' u = gs s u" by auto
      with that assms(1) show ?thesis by (simp add: parked_inv_def)
    qed
    then have "woken s s' = []"
      by (auto simp: woken_def filter_empty_conv)
    with False show ?thesis by simp
  qed
qed

lemma enq_step_due:
  assumes "step s g = Next s'" "enq_frame (gs s g)"
  shows "(enq_frame (gs s' g) \<or> idle (gs s' g)) \<and>
         (if gs s g = Enq_Signal then 1 else 0) + signals_due (gs s' g) \<le> signals_due (gs s g)"
  using assms
  by (cases "gs s g") (auto simp: prims split: option.splits list.splits if_splits)

lemma wakes_by_due:
  assumes "reachable s" "enq_frame (gs s g) \<or> idle (gs s g)"
  shows "wakes_by g s es \<le> signals_due (gs s g)"
  using assms
proof (induction g s es rule: wakes_by.induct)
  case (1 g s)
  then show ?case by simp
next
  case (2 g s h es)
  show ?case
  proof (cases "idle (gs s g)")
    case True
    then show ?thesis by simp
  next
    case False
    with "2.prems" have ef: "enq_frame (gs s g)" by simp
    show ?thesis
    proof (cases "step s h")
      case (Next s')
      have r: "reachable s'"
        using "2.prems"(1) Next by (rule reachable_step)
      have p: "parked_inv s"
        using reachable_inv [OF "2.prems"(1)] by simp
      show ?thesis
      proof (cases "h = g")
        case True
        with Next have st: "step s g = Next s'" by simp
        from enq_step_due [OF st ef] have
          a: "enq_frame (gs s' g) \<or> idle (gs s' g)" and
          b: "(if gs s g = Enq_Signal then 1 else 0) + signals_due (gs s' g) \<le> signals_due (gs s g)"
          by simp_all
        have "wakes_by g s' es \<le> signals_due (gs s' g)"
          using "2.IH"(1) [OF False Next r a] .
        moreover have "length (woken s s') \<le> (if gs s g = Enq_Signal then 1 else 0)"
          using woken_step [OF p st] by simp
        ultimately show ?thesis
          using b False Next True by simp
      next
        case neq: False
        then have "g \<noteq> h" by simp
        from step_others [OF Next this] ef p have same: "gs s' g = gs s g"
          by (cases "cond (obj s)") (auto simp: parked_inv_def)
        then have "wakes_by g s' es \<le> signals_due (gs s' g)"
          using "2.IH"(1) [OF False Next r] ef by simp
        then show ?thesis
          using False Next neq same by simp
      qed
    next
      case Blocked
      then show ?thesis using "2.IH"(2) "2.prems" False by simp
    next
      case Crash
      then show ?thesis using "2.IH"(3) "2.prems" False by simp
    next
      case Halted
      then show ?thesis using "2.IH"(4) "2.prems" False by simp
    qed
  qed
next
  case (3 g s h op es)
  show ?case
  proof (cases "idle (gs s g)")
    case True
    then show ?thesis by simp
  next
    case False
    show ?thesis
    proof (cases "idle (gs s h)")
      case True
      with False have "h \<noteq> g" by auto
      then have same: "gs (call s h op) g = gs s g"
        by (simp add: call_def)
      have "reachable (call s h op)"
        using "3.prems"(1) True by (rule reachable_call)
      then have "wakes_by g (call s h op) es \<le> signals_due (gs (call s h op) g)"
        using "3.IH"(1) [OF False True] "3.prems"(2) same by simp
      then show ?thesis
        using False True same by simp
    next
      case nidle: False
      then show ?thesis
        using "3.IH"(2) [OF False nidle] "3.prems" False by simp
    qed
  qed
qed

lemma reachable_parked:
  assumes "reachable s"
  shows "w \<in> set (cond (obj s)) \<longleftrightarrow> gs s w = Deq_Parked"
  using reachable_inv [OF assms] unfolding parked_inv_def by blast

subsection \<open>The statements of the observers and of Dequeue\<close>

lemma observer_step:
  assumes "observer_frame (gs s g)" "step s g = Next s'"
  shows "queue (obj s') = queue (obj s)"
  using assms
  by (cases "gs s g") (auto simp: prims split: option.splits if_splits)

lemma deq_step_returns:
  assumes "deq_frame (gs s g)" "step s g = Next s'" "gs s' g = Returned r"
  shows "\<exists>item. r = RetDequeue item True"
  using assms
  by (cases "gs s g") (auto simp: prims split: option.splits list.splits if_splits)

lemma step_returns_true:
  assumes "step s g = Next s'" "gs s' g = Returned (RetDequeue x b)"
  shows "b"
  using assms
  by (cases "gs s g") (auto simp: prims split: option.splits list.splits if_splits)

lemma reachable_returns_true:
  assumes "reachable s" "gs s g = Returned (RetDequeue x b)"
  shows "b"
  using assms
proof (induction arbitrary: g)
  case reachable_init
  then show ?case by (simp add: init_def)
next
  case (reachable_call s h op)
  then show ?case
    by (cases op; cases "g = h") (auto simp: call_def)
next
  case (reachable_step s h s')
  show ?case
  proof (cases "g = h")
    case True
    with reachable_step.hyps(2) reachable_step.prems show ?thesis
      by (auto dest: step_returns_true)
  next
    case False
    from step_others [OF reachable_step.hyps(2) False] reachable_step.prems
    have "gs s g = Returned (RetDequeue x b)" by auto
    then show ?thesis by (rule reachable_step.IH)
  qed
qed

lemma loop_step:
  assumes "gs s g = Deq_Loop"
  shows "step s g =
    Next \<lparr>obj = obj s, gs = (gs s)(g := if queue (obj s) = [] then Deq_Wait else Deq_Item)\<rparr>"
  using assms by (simp add: prims)

lemma wait_step:
  assumes "gs s g = Deq_Wait" "mu (obj s)"
  shows "step s g =
    Next \<lparr>obj = (obj s)\<lparr>cond := cond (obj s) @ [g], mu := False\<rparr>, gs = (gs s)(g := Deq_Parked)\<rparr>"
  using assms by (simp add: prims)

lemma reachable_locked:
  assumes "reachable s" "locked (gs s g)"
  shows "mu (obj s)"
proof -
  from reachable_inv [OF assms(1)] have "mu (obj s) \<longleftrightarrow> (\<exists>g. locked (gs s g))"
    by (simp add: mutex_inv_def)
  with assms(2) show ?thesis by blast
qed

lemma suspends:
  assumes "reachable s" "gs s g = Deq_Loop" "queue (obj s) = []"
  shows "\<exists>s1 s2. step s g = Next s1 \<and> step s1 g = Next s2 \<and> gs s2 g = Deq_Parked \<and>
           \<not> mu (obj s2) \<and> g \<in> set (cond (obj s2)) \<and> step s2 g = Blocked"
proof -
  let ?s1 = "\<lparr>obj = obj s, gs = (gs s)(g := Deq_Wait)\<rparr>"
  let ?s2 = "\<lparr>obj = (obj s)\<lparr>cond := cond (obj s) @ [g], mu := False\<rparr>,
             gs = (gs ?s1)(g := Deq_Parked)\<rparr>"
  from reachable_locked [OF assms(1), of g] assms(2) have m: "mu (obj s)"
    by simp
  have 1: "step s g = Next ?s1"
    using loop_step [OF assms(2)] assms(3) by simp
  have 2: "step ?s1 g = Next ?s2"
    using m by (simp add: wait_step)
  have 3: "step ?s2 g = Blocked"
    by (simp add: prims)
  from 1 2 3 show ?thesis
    by (intro exI [of _ ?s1] exI [of _ ?s2]) simp
qed

lemma parked_step:
  assumes "gs s g = Deq_Parked" "step s h = Next s'"
  shows "gs s' g = Deq_Parked \<or> gs s' g = Deq_Relock"
proof -
  from assms have "g \<noteq> h" by (auto simp: prims)
  from step_others [OF assms(2) this] assms(1) show ?thesis by auto
qed

lemma relock_step:
  assumes "gs s g = Deq_Relock" "step s g = Next s'"
  shows "gs s' g = Deq_Loop \<and> mu (obj s')"
  using assms by (auto simp: prims split: if_splits)

lemma removal_nonempty:
  assumes "reachable s" "gs s g = Deq_Item \<or> gs s g = Deq_Slice x"
  shows "mu (obj s) \<and> queue (obj s) \<noteq> []"
proof -
  from assms(2) have "locked (gs s g)" by auto
  then have "mu (obj s)" by (rule reachable_locked [OF assms(1)])
  moreover from reachable_inv [OF assms(1)] have "head_inv s" by simp
  then have
    "gs s g = Deq_Item \<Longrightarrow> queue (obj s) \<noteq> []"
    "gs s g = Deq_Slice x \<Longrightarrow> \<exists>xs. queue (obj s) = x # xs"
    unfolding head_inv_def by blast+
  ultimately show ?thesis
    using assms(2) by auto
qed

lemma append_step:
  assumes "gs s g = Enq_Append item" "step s g = Next s'"
  shows "queue (obj s') = queue (obj s) @ [item]"
  using assms by (auto simp: prims)

lemma slice_step:
  assumes "reachable s" "gs s g = Deq_Slice item" "step s g = Next s'"
  shows "queue (obj s) = item # queue (obj s')"
proof -
  from reachable_inv [OF assms(1)] have "head_inv s" by simp
  with assms(2) obtain xs where "queue (obj s) = item # xs"
    unfolding head_inv_def by blast
  with assms(2,3) show ?thesis
    by (auto simp: prims)
qed

subsection \<open>Calls running alone are interleavings\<close>

text \<open>
  A call that runs alone in a reachable state ends in a reachable state, and a
  sequence of completed calls on a new queue ends in a reachable state where no
  call is in progress.
\<close>

lemma run_reachable:
  assumes "reachable s" "run s g = Returns r s'"
  shows "reachable s'"
  using assms
proof (induction s g rule: run.induct)
  case (1 s g)
  show ?case
  proof (cases "step s g")
    case (Next s1)
    with "1.prems"(2) have "run s1 g = Returns r s'"
      by (simp add: run.simps [of s g])
    moreover have "reachable s1"
      using "1.prems"(1) Next by (rule reachable_step)
    ultimately show ?thesis
      using "1.IH" [OF Next] by simp
  next
    case Blocked
    with "1.prems"(2) show ?thesis by (simp add: run.simps [of s g])
  next
    case Crash
    with "1.prems"(2) show ?thesis by (simp add: run.simps [of s g])
  next
    case Halted
    with "1.prems" show ?thesis
      by (cases "gs s g") (simp_all add: run.simps [of s g])
  qed
qed

lemma run_idle:
  assumes "run s g = Returns r s'" "\<forall>h. h \<noteq> g \<longrightarrow> idle (gs s h)" "parked_inv s"
  shows "\<forall>h. idle (gs s' h)"
  using assms
proof (induction s g rule: run.induct)
  case (1 s g)
  show ?case
  proof (cases "step s g")
    case (Next s1)
    with "1.prems"(1) have r: "run s1 g = Returns r s'"
      by (simp add: run.simps [of s g])
    have "idle (gs s1 h)" if "h \<noteq> g" for h
    proof -
      from "1.prems"(2) that have i: "idle (gs s h)" by simp
      then have "gs s h \<noteq> Deq_Parked" by auto
      with "1.prems"(3) have "h \<notin> set (cond (obj s))"
        by (auto simp: parked_inv_def)
      with step_others [OF Next that] i show ?thesis
        by (cases "cond (obj s)") auto
    qed
    moreover have "parked_inv s1"
      using "1.prems"(3) Next by (rule parked_inv_step)
    ultimately show ?thesis
      using "1.IH" [OF Next r] by simp
  next
    case Blocked
    with "1.prems"(1) show ?thesis by (simp add: run.simps [of s g])
  next
    case Crash
    with "1.prems"(1) show ?thesis by (simp add: run.simps [of s g])
  next
    case Halted
    with "1.prems"(1) have "\<exists>r. gs s g = Returned r" "s' = s"
      by (cases "gs s g"; simp add: run.simps [of s g])+
    with "1.prems"(2) show ?thesis
      by (metis idle.simps(2))
  qed
qed

lemma invoke_reachable:
  assumes "reachable s" "\<forall>h. idle (gs s h)" "invoke s g op = Returns r s'"
  shows "reachable s' \<and> (\<forall>h. idle (gs s' h))"
proof -
  have c: "reachable (call s g op)"
    using assms(1,2) by (simp add: reachable_call)
  have "\<forall>h. h \<noteq> g \<longrightarrow> idle (gs (call s g op) h)"
    using assms(2) by (simp add: call_def)
  moreover from reachable_inv [OF c] have "parked_inv (call s g op)" by simp
  ultimately show ?thesis
    using run_reachable [OF c] run_idle assms(3) unfolding invoke_def by blast
qed

lemma exec_reachable:
  assumes "reachable s" "\<forall>h. idle (gs s h)" "exec s ops = Some (rs, s')"
  shows "reachable s' \<and> (\<forall>h. idle (gs s' h))"
  using assms
proof (induction ops arbitrary: s rs)
  case Nil
  then show ?case by simp
next
  case (Cons c ops)
  obtain g op where c: "c = (g, op)" by (cases c)
  from Cons.prems(3) obtain r s1 rs' where
    r: "invoke s g op = Returns r s1" and e: "exec s1 ops = Some (rs', s')"
    by (auto simp: c split: result.splits option.splits)
  from invoke_reachable [OF Cons.prems(1,2) r] have "reachable s1" "\<forall>h. idle (gs s1 h)"
    by simp_all
  then show ?case
    using Cons.IH e by blast
qed

lemma exec_init_reachable:
  assumes "exec init ops = Some (rs, s)"
  shows "reachable s"
  using exec_reachable [OF reachable_init _ assms] by (simp add: init_def)

section \<open>The properties of the specification\<close>

lemmas evals = prims init_def NewThreadSafeQueue_def invoke_def run.simps
  Enqueue_def Dequeue_def IsEmpty_def Size_def enqueue_calls_def dequeue_calls_def

lemmas scenes = at_loop_empty_def parked_signal_def woken_free_def at_removal_def
  two_parked_def

text \<open>
  C1. \<open>N\<close> calls of \<^verbatim>\<open>Enqueue\<close> with the items \<open>v1 .. vN\<close>, made on a queue
  that holds nothing else, by any goroutines and with no call of \<^verbatim>\<open>Dequeue\<close> in
  between, all return; the next \<open>N\<close> calls of \<^verbatim>\<open>Dequeue\<close> return \<open>v1 .. vN\<close> in
  this order, each with \<^verbatim>\<open>true\<close>, and each item is the value that was inserted,
  whatever its type.
\<close>

theorem fifo_order:
  assumes "\<not> mu (obj s)" "queue (obj s) = []" "length hs = length gvs"
  shows "\<exists>s1 s2.
    exec s (enqueue_calls gvs) = Some (map (\<lambda>_. RetEnqueue) gvs, s1) \<and>
    exec s1 (dequeue_calls hs) = Some (map (\<lambda>(g, item). RetDequeue item True) gvs, s2)"
proof -
  from exec_enqueue_calls [OF assms(1), of gvs] assms(2) obtain s1 where
    s1: "exec s (enqueue_calls gvs) = Some (map (\<lambda>_. RetEnqueue) gvs, s1)"
      "queue (obj s1) = map snd gvs @ []" "\<not> mu (obj s1)"
    by auto
  from assms(3) have "length hs = length (map snd gvs)" by simp
  from exec_dequeue_calls [OF s1(3) s1(2) this] obtain s2 where
    "exec s1 (dequeue_calls hs) = Some (map (\<lambda>x. RetDequeue x True) (map snd gvs), s2)"
    by blast
  moreover have "map (\<lambda>x. RetDequeue x True) (map snd gvs) =
      map (\<lambda>(g, item). RetDequeue item True) gvs"
    by (simp add: case_prod_beta)
  ultimately show ?thesis
    using s1(1) by auto
qed

theorem fifo_order_witness:
  "\<not> mu (obj (init :: go_value system)) \<and> queue (obj (init :: go_value system)) = [] \<and>
   length [2, 2, 3, 2 :: nat] = length heterogeneous \<and>
   (\<exists>s1 s2.
      exec init (enqueue_calls heterogeneous) =
        Some ([RetEnqueue, RetEnqueue, RetEnqueue, RetEnqueue], s1) \<and>
      exec s1 (dequeue_calls [2, 2, 3, 2]) =
        Some ([RetDequeue (GoInt 42) True, RetDequeue (GoString ''hello'') True,
               RetDequeue (GoFloat64 0x40091EB851EB851F) True, RetDequeue (GoBool True) True],
              s2))"
proof -
  have h: "\<not> mu (obj (init :: go_value system))" "queue (obj (init :: go_value system)) = []"
    "length [2, 2, 3, 2 :: nat] = length heterogeneous"
    by (simp_all add: init_def NewThreadSafeQueue_def heterogeneous_def)
  from fifo_order [OF h] show ?thesis
    using h by (simp add: heterogeneous_def)
qed

text \<open>
  C2. In every reachable state, a goroutine to which \<^verbatim>\<open>Dequeue\<close> has returned
  \<open>(x, b)\<close> has \<open>b\<close> true; and whenever a statement of \<^verbatim>\<open>Dequeue\<close> returns to the
  caller, what it returns is an item with \<^verbatim>\<open>true\<close>.
\<close>

theorem Dequeue_returns_true:
  assumes "reachable s"
  shows "(gs s g = Returned (RetDequeue x b) \<longrightarrow> b) \<and>
         (deq_frame (gs s g) \<and> step s g = Next s' \<and> gs s' g = Returned r \<longrightarrow>
            (\<exists>item. r = RetDequeue item True))"
  using reachable_returns_true [OF assms, of g x b] deq_step_returns [of s g s' r]
  by blast

theorem Dequeue_returns_true_witness:
  "reachable served \<and> deq_frame (gs served 0) \<and>
   (\<exists>s'. step served 0 = Next s' \<and> reachable s' \<and>
      gs s' 0 = Returned (RetDequeue (GoInt 42) True))"
proof -
  have r: "reachable served"
    unfolding served_def by (rule reachable_play [OF reachable_init])
  have d: "deq_frame (gs served 0)"
    by (simp add: served_def evals)
  obtain s' where s': "step served 0 = Next s'" "gs s' 0 = Returned (RetDequeue (GoInt 42) True)"
    by (simp add: served_def evals)
  from r s'(1) have r': "reachable s'" by (rule reachable_step)
  from Dequeue_returns_true [OF r', of 0 "GoInt 42" True]
    Dequeue_returns_true [OF r, of 0 _ _ s' "RetDequeue (GoInt 42) True"]
  show ?thesis
    using r d s' r' by blast
qed

text \<open>
  C3. \<^verbatim>\<open>NewThreadSafeQueue\<close> gives a queue with no items, and it has no error
  outcome; called right after it, \<^verbatim>\<open>IsEmpty\<close> returns \<^verbatim>\<open>true\<close> and \<^verbatim>\<open>Size\<close> returns 0.
\<close>

theorem New_is_empty:
  "queue NewThreadSafeQueue = [] \<and>
   (\<exists>s'. IsEmpty init g = Returns (RetIsEmpty True) s') \<and>
   (\<exists>s'. Size init g = Returns (RetSize 0) s')"
  using invoke_IsEmpty [OF init_unlocked(1), of g] invoke_Size [OF init_unlocked(1), of g]
  by (auto simp: IsEmpty_def Size_def NewThreadSafeQueue_def init_unlocked(2))

theorem New_is_empty_witness:
  "queue (NewThreadSafeQueue :: go_value ThreadSafeQueue) = [] \<and>
   (\<exists>s'. IsEmpty (init :: go_value system) 0 = Returns (RetIsEmpty True) s') \<and>
   (\<exists>s'. Size (init :: go_value system) 0 = Returns (RetSize 0) s')"
  using New_is_empty [where 'a = go_value and g = 0] by simp

text \<open>
  C4. In every state where the mutex is free, whatever the queue holds and
  whatever the item is (the item type is arbitrary; the run below inserts the nil
  interface), a call of \<^verbatim>\<open>Enqueue\<close> returns, with no error outcome, and the queue
  is then the old queue followed by the item. In every interleaving, no
  statement of \<^verbatim>\<open>Enqueue\<close> crashes, and line 30 turns the queue into the old queue
  followed by the item.
\<close>

theorem Enqueue_appends:
  "(\<not> mu (obj s) \<longrightarrow>
      (\<exists>s1. Enqueue s g item = Returns RetEnqueue s1 \<and>
            queue (obj s1) = queue (obj s) @ [item])) \<and>
   (reachable s \<and> enq_frame (gs s g) \<longrightarrow> step s g \<noteq> Crash) \<and>
   (gs s g = Enq_Append item \<and> step s g = Next s' \<longrightarrow>
      queue (obj s') = queue (obj s) @ [item])"
  using invoke_Enqueue [of s g item] reachable_no_crash [of s g] append_step [of s g item s']
  by (auto simp: Enqueue_def)

theorem Enqueue_appends_witness:
  "\<not> mu (obj holding_two) \<and>
   (\<exists>s1. Enqueue holding_two 0 GoNil = Returns RetEnqueue s1 \<and>
         queue (obj s1) = [GoInt 42, GoString ''hello'', GoNil]) \<and>
   reachable appending \<and> gs appending 0 = Enq_Append GoNil \<and>
   queue (obj appending) = [GoInt 42] \<and>
   (\<exists>s'. step appending 0 = Next s' \<and> queue (obj s') = [GoInt 42, GoNil])"
proof -
  have h: "\<not> mu (obj holding_two)" "queue (obj holding_two) = [GoInt 42, GoString ''hello'']"
    by (simp_all add: holding_two_def)
  have r: "reachable appending"
    unfolding appending_def by (intro reachable_play reachable_init)
  have a: "gs appending 0 = Enq_Append GoNil" "queue (obj appending) = [GoInt 42]"
    "\<exists>s'. step appending 0 = Next s'"
    by (simp_all add: appending_def evals)
  then obtain s' where s': "step appending 0 = Next s'" by blast
  from Enqueue_appends [of holding_two 0 GoNil] Enqueue_appends [of appending 0 GoNil s']
  show ?thesis
    using h r a s' by auto
qed



text \<open>
  C6. In every state where the mutex is free, \<^verbatim>\<open>IsEmpty\<close> returns \<^verbatim>\<open>true\<close>
  exactly when \<^verbatim>\<open>Size\<close> returns 0, and exactly when the queue holds no item.
\<close>

theorem IsEmpty_iff_Size_0:
  assumes "\<not> mu (obj s)"
  shows "\<exists>b n s1 s2.
    IsEmpty s g = Returns (RetIsEmpty b) s1 \<and> Size s h = Returns (RetSize n) s2 \<and>
    b = (n = 0) \<and> b = (queue (obj s) = [])"
  using invoke_IsEmpty [OF assms, of g] invoke_Size [OF assms, of h]
  by (auto simp: IsEmpty_def Size_def)

theorem IsEmpty_iff_Size_0_witness:
  "\<not> mu (obj holding_two) \<and>
   (\<exists>s1 s2.
      IsEmpty holding_two 0 = Returns (RetIsEmpty False) s1 \<and>
      Size holding_two 1 = Returns (RetSize 2) s2) \<and>
   \<not> mu (obj (init :: go_value system)) \<and>
   (\<exists>s1 s2.
      IsEmpty (init :: go_value system) 0 = Returns (RetIsEmpty True) s1 \<and>
      Size (init :: go_value system) 1 = Returns (RetSize 0) s2)"
proof -
  have h: "\<not> mu (obj holding_two)" "queue (obj holding_two) \<noteq> []"
    by (simp_all add: holding_two_def)
  have z: "Size holding_two 1 =
      Returns (RetSize 2) (holding_two\<lparr>gs := (gs holding_two)(1 := Returned (RetSize 2))\<rparr>)"
    by (simp add: holding_two_def evals)
  have i: "\<not> mu (obj (init :: go_value system))" "queue (obj (init :: go_value system)) = []"
    by (simp_all add: init_def NewThreadSafeQueue_def)
  from IsEmpty_iff_Size_0 [OF h(1), of 0 1] IsEmpty_iff_Size_0 [OF i(1), of 0 1]
  show ?thesis
    using h z i by auto
qed

text \<open>
  C7. In every reachable state: a goroutine in \<^verbatim>\<open>Dequeue\<close> that holds the
  mutex and finds the queue empty at the loop condition calls \<^verbatim>\<open>Wait\<close> and is
  parked, on the notify list, with the mutex unlocked, and cannot take a step
  itself; a step of any goroutine leaves a parked goroutine parked or wakes it;
  a woken goroutine locks the mutex and is back at the loop condition; at the
  loop condition it goes on to line 46 only if the queue is not empty, and to
  \<^verbatim>\<open>Wait\<close> again otherwise; and at lines 46 and 47 the goroutine holds the mutex and
  the queue is not empty.
\<close>

theorem Dequeue_waits_and_rechecks:
  assumes "reachable s"
  shows
    "(gs s g = Deq_Loop \<and> queue (obj s) = [] \<longrightarrow>
        (\<exists>s1 s2. step s g = Next s1 \<and> step s1 g = Next s2 \<and> gs s2 g = Deq_Parked \<and>
           \<not> mu (obj s2) \<and> g \<in> set (cond (obj s2)) \<and> step s2 g = Blocked)) \<and>
     (gs s g = Deq_Parked \<and> step s h = Next s' \<longrightarrow>
        gs s' g = Deq_Parked \<or> gs s' g = Deq_Relock) \<and>
     (gs s g = Deq_Relock \<and> step s g = Next s' \<longrightarrow> gs s' g = Deq_Loop \<and> mu (obj s')) \<and>
     (gs s g = Deq_Loop \<and> step s g = Next s' \<longrightarrow>
        gs s' g = (if queue (obj s) = [] then Deq_Wait else Deq_Item)) \<and>
     (gs s g = Deq_Item \<or> gs s g = Deq_Slice x \<longrightarrow> mu (obj s) \<and> queue (obj s) \<noteq> [])"
proof (intro conjI impI)
  assume "gs s g = Deq_Loop \<and> queue (obj s) = []"
  then show "\<exists>s1 s2. step s g = Next s1 \<and> step s1 g = Next s2 \<and> gs s2 g = Deq_Parked \<and>
           \<not> mu (obj s2) \<and> g \<in> set (cond (obj s2)) \<and> step s2 g = Blocked"
    using suspends [OF assms] by blast
next
  assume "gs s g = Deq_Parked \<and> step s h = Next s'"
  then show "gs s' g = Deq_Parked \<or> gs s' g = Deq_Relock"
    using parked_step by blast
next
  assume a: "gs s g = Deq_Relock \<and> step s g = Next s'"
  then show "gs s' g = Deq_Loop" using relock_step by blast
  from a show "mu (obj s')" using relock_step by blast
next
  assume "gs s g = Deq_Loop \<and> step s g = Next s'"
  then show "gs s' g = (if queue (obj s) = [] then Deq_Wait else Deq_Item)"
    using loop_step [of s g] by auto
next
  assume a: "gs s g = Deq_Item \<or> gs s g = Deq_Slice x"
  then show "mu (obj s)" using removal_nonempty [OF assms] by blast
  from a show "queue (obj s) \<noteq> []" using removal_nonempty [OF assms] by blast
qed

theorem Dequeue_waits_and_rechecks_witness:
  "reachable at_loop_empty \<and> gs at_loop_empty 0 = Deq_Loop \<and> queue (obj at_loop_empty) = [] \<and>
   (\<exists>s1 s2. step at_loop_empty 0 = Next s1 \<and> step s1 0 = Next s2 \<and> gs s2 0 = Deq_Parked \<and>
      \<not> mu (obj s2) \<and> 0 \<in> set (cond (obj s2)) \<and> step s2 0 = Blocked) \<and>
   reachable parked_signal \<and> gs parked_signal 0 = Deq_Parked \<and>
   (\<exists>s'. step parked_signal 1 = Next s' \<and> gs s' 0 = Deq_Relock) \<and>
   reachable woken_free \<and> gs woken_free 0 = Deq_Relock \<and>
   (\<exists>s'. step woken_free 0 = Next s' \<and> gs s' 0 = Deq_Loop \<and> mu (obj s')) \<and>
   reachable at_removal \<and> gs at_removal 0 = Deq_Item \<and> mu (obj at_removal) \<and>
   queue (obj at_removal) = [GoInt 42]"
proof -
  have r: "reachable at_loop_empty" "reachable parked_signal" "reachable woken_free"
    "reachable at_removal"
    unfolding scenes by (intro reachable_play reachable_init)+
  have a: "gs at_loop_empty 0 = Deq_Loop" "queue (obj at_loop_empty) = []"
    by (simp_all add: scenes evals)
  have b: "gs parked_signal 0 = Deq_Parked"
    "\<exists>s'. step parked_signal 1 = Next s' \<and> gs s' 0 = Deq_Relock"
    by (simp_all add: scenes evals)
  have c: "gs woken_free 0 = Deq_Relock" "\<exists>s'. step woken_free 0 = Next s'"
    by (simp_all add: scenes evals)
  have d: "gs at_removal 0 = Deq_Item" "queue (obj at_removal) = [GoInt 42]"
    by (simp_all add: scenes evals)
  from c(2) obtain s' where s': "step woken_free 0 = Next s'" ..
  from Dequeue_waits_and_rechecks [OF r(1), of 0] a
  have 1: "\<exists>s1 s2. step at_loop_empty 0 = Next s1 \<and> step s1 0 = Next s2 \<and>
      gs s2 0 = Deq_Parked \<and> \<not> mu (obj s2) \<and> 0 \<in> set (cond (obj s2)) \<and> step s2 0 = Blocked"
    by blast
  from Dequeue_waits_and_rechecks [OF r(3), of 0 _ s'] c(1) s'
  have 3: "gs s' 0 = Deq_Loop \<and> mu (obj s')"
    by blast
  from Dequeue_waits_and_rechecks [OF r(4), of 0] d(1)
  have 4: "mu (obj at_removal)"
    by blast
  from r a b c(1) d 1 3 4 s' show ?thesis
    by blast
qed

text \<open>
  C8. For a call of \<^verbatim>\<open>Enqueue\<close> started in any reachable state, and any
  interleaving of its statements with statements and new calls of the other
  goroutines, the statements of this call wake at most one parked goroutine in
  total.
\<close>

theorem Enqueue_wakes_at_most_one:
  assumes "reachable s" "idle (gs s g)"
  shows "wakes_by g (call s g (OpEnqueue item)) es \<le> 1"
proof -
  have "reachable (call s g (OpEnqueue item))"
    using assms by (rule reachable_call)
  moreover have "gs (call s g (OpEnqueue item)) g = Enq_Lock item"
    by (simp add: call_def)
  ultimately show ?thesis
    using wakes_by_due [of "call s g (OpEnqueue item)" g es] by simp
qed

theorem Enqueue_wakes_at_most_one_witness:
  "reachable two_parked \<and> idle (gs two_parked 0) \<and> cond (obj two_parked) = [1, 2] \<and>
   wakes_by 0 (call two_parked 0 (OpEnqueue (GoInt 42)))
     [Step 0, Step 1, Step 0, Step 0, Step 2, Step 0, Step 1] = 1 \<and>
   wakes_by 0 (call two_parked 0 (OpEnqueue (GoInt 42)))
     [Step 0, Step 1, Step 0, Step 0, Step 2, Step 0, Step 1] \<le> 1"
proof -
  have r: "reachable two_parked"
    unfolding scenes by (intro reachable_play reachable_init)
  have i: "idle (gs two_parked 0)" "cond (obj two_parked) = [1, 2]"
    by (simp_all add: scenes evals)
  have w: "wakes_by 0 (call two_parked 0 (OpEnqueue (GoInt 42)))
     [Step 0, Step 1, Step 0, Step 0, Step 2, Step 0, Step 1] = 1"
    by (simp add: scenes evals woken_def)
  from Enqueue_wakes_at_most_one [OF r i(1), of "GoInt 42"
      "[Step 0, Step 1, Step 0, Step 0, Step 2, Step 0, Step 1]"]
  show ?thesis
    using r i w by blast
qed

text \<open>
  C9. In every state where the mutex is free and the queue is \<open>x # xs\<close>, a call
  of \<^verbatim>\<open>Dequeue\<close> returns \<open>x\<close> with \<^verbatim>\<open>true\<close> and leaves the queue \<open>xs\<close>; \<^verbatim>\<open>Size\<close>
  called after it returns one less than \<^verbatim>\<open>Size\<close> called before it. In every
  interleaving, line 47 removes the first element of the queue, which is the
  item the call returns, and nothing else.
\<close>

theorem Dequeue_removes_head:
  "(\<not> mu (obj s) \<and> queue (obj s) = x # xs \<longrightarrow>
      (\<exists>s1 n a b.
         Dequeue s g = Returns (RetDequeue x True) s1 \<and> queue (obj s1) = xs \<and>
         Size s h = Returns (RetSize n) a \<and> Size s1 h = Returns (RetSize (n - 1)) b)) \<and>
   (reachable s \<and> gs s g = Deq_Slice item \<and> step s g = Next s' \<longrightarrow>
      queue (obj s) = item # queue (obj s') \<and> gs s' g = Deq_Return item)"
proof (intro conjI impI)
  assume a: "\<not> mu (obj s) \<and> queue (obj s) = x # xs"
  then have m: "\<not> mu (obj s)" and q: "queue (obj s) = x # xs" by simp_all
  from invoke_Dequeue_Cons [OF m q, of g] obtain s1 where
    s1: "invoke s g OpDequeue = Returns (RetDequeue x True) s1" "queue (obj s1) = xs"
      "\<not> mu (obj s1)"
    by blast
  from invoke_Size [OF m, of h] invoke_Size [OF s1(3), of h] s1(1,2) q
  show "\<exists>s1 n a b.
         Dequeue s g = Returns (RetDequeue x True) s1 \<and> queue (obj s1) = xs \<and>
         Size s h = Returns (RetSize n) a \<and> Size s1 h = Returns (RetSize (n - 1)) b"
    by (auto simp: Dequeue_def Size_def)
next
  assume a: "reachable s \<and> gs s g = Deq_Slice item \<and> step s g = Next s'"
  then show "queue (obj s) = item # queue (obj s')"
    using slice_step [of s g item s'] by simp
  from a show "gs s' g = Deq_Return item"
    by (auto simp: prims split: list.splits)
qed

theorem Dequeue_removes_head_witness:
  "\<not> mu (obj holding_two) \<and> queue (obj holding_two) = [GoInt 42, GoString ''hello''] \<and>
   (\<exists>s1 a b.
      Dequeue holding_two 0 = Returns (RetDequeue (GoInt 42) True) s1 \<and>
      queue (obj s1) = [GoString ''hello''] \<and>
      Size holding_two 1 = Returns (RetSize 2) a \<and> Size s1 1 = Returns (RetSize 1) b) \<and>
   reachable slicing \<and> gs slicing 0 = Deq_Slice (GoInt 42) \<and>
   queue (obj slicing) = [GoInt 42, GoString ''hello''] \<and>
   (\<exists>s'. step slicing 0 = Next s' \<and> queue (obj s') = [GoString ''hello''] \<and>
      gs s' 0 = Deq_Return (GoInt 42))"
proof -
  have h: "\<not> mu (obj holding_two)" "queue (obj holding_two) = [GoInt 42, GoString ''hello'']"
    by (simp_all add: holding_two_def)
  have z: "Size holding_two 1 =
      Returns (RetSize 2) (holding_two\<lparr>gs := (gs holding_two)(1 := Returned (RetSize 2))\<rparr>)"
    by (simp add: holding_two_def evals)
  have r: "reachable slicing"
    unfolding slicing_def by (intro reachable_play reachable_init)
  have a: "gs slicing 0 = Deq_Slice (GoInt 42)"
    "queue (obj slicing) = [GoInt 42, GoString ''hello'']"
    "\<exists>s'. step slicing 0 = Next s'"
    by (simp_all add: slicing_def evals)
  then obtain s' where s': "step slicing 0 = Next s'" by blast
  from Dequeue_removes_head [of holding_two "GoInt 42" "[GoString ''hello'']" 0 1]
    Dequeue_removes_head [of slicing _ _ 0 _ "GoInt 42" s']
  show ?thesis
    using h z r a s' by auto
qed

text \<open>
  C10. In every state where the mutex is free, \<^verbatim>\<open>IsEmpty\<close> and \<^verbatim>\<open>Size\<close> return
  and leave the items of the queue as they were; and in any state, a statement
  of \<^verbatim>\<open>IsEmpty\<close> or \<^verbatim>\<open>Size\<close> leaves them as they were.
\<close>

theorem observers_pure:
  "(\<not> mu (obj s) \<longrightarrow>
      (\<exists>b n s1 s2.
         IsEmpty s g = Returns (RetIsEmpty b) s1 \<and> queue (obj s1) = queue (obj s) \<and>
         Size s g = Returns (RetSize n) s2 \<and> queue (obj s2) = queue (obj s))) \<and>
   (observer_frame (gs s g) \<and> step s g = Next s' \<longrightarrow> queue (obj s') = queue (obj s))"
  using invoke_IsEmpty [of s g] invoke_Size [of s g] observer_step [of s g s']
  by (auto simp: IsEmpty_def Size_def)

theorem observers_pure_witness:
  "\<not> mu (obj holding_two) \<and>
   (\<exists>s1 s2.
      IsEmpty holding_two 0 = Returns (RetIsEmpty False) s1 \<and>
      queue (obj s1) = [GoInt 42, GoString ''hello''] \<and>
      Size holding_two 0 = Returns (RetSize 2) s2 \<and>
      queue (obj s2) = [GoInt 42, GoString ''hello'']) \<and>
   observer_frame (gs (play holding_two [Invoke 0 OpSize, Step 0]) 0) \<and>
   (\<exists>s'. step (play holding_two [Invoke 0 OpSize, Step 0]) 0 = Next s' \<and>
         queue (obj s') = [GoInt 42, GoString ''hello''])"
proof -
  let ?s = "play holding_two [Invoke 0 OpSize, Step 0]"
  have h: "\<not> mu (obj holding_two)" "queue (obj holding_two) = [GoInt 42, GoString ''hello'']"
    by (simp_all add: holding_two_def)
  have e: "IsEmpty holding_two 0 =
      Returns (RetIsEmpty False)
        (holding_two\<lparr>gs := (gs holding_two)(0 := Returned (RetIsEmpty False))\<rparr>)"
    "Size holding_two 0 =
      Returns (RetSize 2) (holding_two\<lparr>gs := (gs holding_two)(0 := Returned (RetSize 2))\<rparr>)"
    by (simp_all add: holding_two_def evals)
  have f: "observer_frame (gs ?s 0)" "queue (obj ?s) = [GoInt 42, GoString ''hello'']"
    "\<exists>s'. step ?s 0 = Next s'"
    by (simp_all add: holding_two_def evals)
  from observers_pure [of holding_two 0] observers_pure [of ?s 0] show ?thesis
    using h e f by auto
qed

end
